theory Spec2Isabelle
  imports Main "HOL-Library.Sublist"
begin

section \<open>timemachine-exclude: the class TMExclude of src/tmexclude.ts\<close>

text \<open>
  The tool scans configured parent directories for directories whose names match
  configured patterns, writes the paths found to an exclusion file, and hands every path of
  that file that still exists to \<^verbatim>\<open>tmutil addexclusion\<close>.

  JavaScript strings are modelled as \<^typ>\<open>string\<close>, one \<^typ>\<open>char\<close> per code unit.
  Exceptions are values: a function that can throw returns \<open>error + 'a\<close>. Console output
  is a list of lines, returned beside the result, so that what was printed before an
  exception is kept, as on the real console.
\<close>

subsection \<open>Strings\<close>

definition LF :: char where
  "LF = CHR 0x0A"

definition CR :: char where
  "CR = CHR 0x0D"

definition DQUOTE :: char where
  "DQUOTE = CHR 0x22"

definition SQUOTE :: char where
  "SQUOTE = CHR 0x27"

definition BACKSLASH :: char where
  "BACKSLASH = CHR 0x5C"

text \<open>\<^verbatim>\<open>s.includes(c)\<close> for a one-character needle.\<close>

definition str_includes :: "string \<Rightarrow> char \<Rightarrow> bool" where
  "str_includes s c = (c \<in> set s)"

text \<open>\<^verbatim>\<open>s.startsWith(p)\<close>.\<close>

definition startsWith :: "string \<Rightarrow> string \<Rightarrow> bool" where
  "startsWith s p = (take (length p) s = p)"

text \<open>
  \<^verbatim>\<open>s.split(sep)\<close> for a one-character separator: the pieces between the separators,
  so the empty string gives one empty piece and a trailing separator a last empty piece.
\<close>

fun js_split :: "char \<Rightarrow> string \<Rightarrow> string list" where
  "js_split sep [] = [[]]"
| "js_split sep (c # cs) =
     (if c = sep then [] # js_split sep cs
      else (case js_split sep cs of
              [] \<Rightarrow> [[c]]
            | piece # pieces \<Rightarrow> (c # piece) # pieces))"

text \<open>\<^verbatim>\<open>pieces.join(sep)\<close> for a one-character separator.\<close>

fun js_join :: "char \<Rightarrow> string list \<Rightarrow> string" where
  "js_join sep [] = []"
| "js_join sep [piece] = piece"
| "js_join sep (piece # pieces) = piece @ sep # js_join sep pieces"

subsection \<open>Errors\<close>

text \<open>
  The exceptions of the program, by where they are thrown. Each carries the text of the
  JavaScript error's \<^verbatim>\<open>message\<close>; those of the runtime (a failed
  \<^verbatim>\<open>readdirSync\<close>, a rejected regular expression, a failed \<^verbatim>\<open>execSync\<close>)
  are given by the environment.
\<close>

datatype error =
    ConfigMissing string
  | ExclusionListMissing string
  | ReaddirFailed string
  | RegExpSyntaxError string
  | CommandFailed string

fun message :: "error \<Rightarrow> string" where
  "message (ConfigMissing m) = m"
| "message (ExclusionListMissing m) = m"
| "message (ReaddirFailed m) = m"
| "message (RegExpSyntaxError m) = m"
| "message (CommandFailed m) = m"

subsection \<open>The regular expressions the pattern matcher builds\<close>

text \<open>
  A pattern with a \<^verbatim>\<open>*\<close> is matched through
  \<^verbatim>\<open>new RegExp('^' + pattern.replace(/\*/g, '.*') + '$').test(name)\<close>.
  The JavaScript engine is modelled on the sources of the form \<^verbatim>\<open>^\<close> items
  \<^verbatim>\<open>$\<close>, where an item is a character that is not a syntax character of the
  regular expression grammar (it matches itself), a dot (any character but a line
  terminator) or a dot with a star (any run of such characters). Every other source is left
  to a parameter \<open>engine\<close>, the JavaScript engine on that source: it answers the test or
  rejects the source with the message of a SyntaxError. The theorems hold for every such
  parameter.
\<close>

type_synonym engine = "string \<Rightarrow> string \<Rightarrow> string + bool"

datatype rx_item = Lit char | AnyChar | AnyRun

definition syntax_char :: "char \<Rightarrow> bool" where
  "syntax_char c = (c \<in> set ''^$.*+?()[]{}|'' \<or> c = BACKSLASH)"

definition line_terminator :: "char \<Rightarrow> bool" where
  "line_terminator c = (c = LF \<or> c = CR)"

fun parse_items :: "string \<Rightarrow> rx_item list option" where
  "parse_items [] = Some []"
| "parse_items (c # cs) =
     (if c = CHR ''.'' then
        (case cs of
           [] \<Rightarrow> Some [AnyChar]
         | d # ds \<Rightarrow>
             if d = CHR ''*'' then map_option ((#) AnyRun) (parse_items ds)
             else map_option ((#) AnyChar) (parse_items cs))
      else if syntax_char c then None
      else map_option ((#) (Lit c)) (parse_items cs))"

definition parse_anchored :: "string \<Rightarrow> rx_item list option" where
  "parse_anchored src =
     (case src of
        [] \<Rightarrow> None
      | c # body \<Rightarrow>
          if c = CHR ''^'' \<and> body \<noteq> [] \<and> last body = CHR ''$''
          then parse_items (butlast body) else None)"

text \<open>The whole of \<open>s\<close> against the items: the match is anchored at both ends.\<close>

fun match_items :: "rx_item list \<Rightarrow> string \<Rightarrow> bool" where
  "match_items [] s = (s = [])"
| "match_items (Lit c # items) [] = False"
| "match_items (Lit c # items) (x # xs) = (x = c \<and> match_items items xs)"
| "match_items (AnyChar # items) [] = False"
| "match_items (AnyChar # items) (x # xs) = (\<not> line_terminator x \<and> match_items items xs)"
| "match_items (AnyRun # items) [] = match_items items []"
| "match_items (AnyRun # items) (x # xs) =
     (match_items items (x # xs) \<or> (\<not> line_terminator x \<and> match_items (AnyRun # items) xs))"

definition RegExp_test :: "engine \<Rightarrow> string \<Rightarrow> string \<Rightarrow> string + bool" where
  "RegExp_test engine src s =
     (case parse_anchored src of
        Some items \<Rightarrow> Inr (match_items items s)
      | None \<Rightarrow> engine src s)"

text \<open>An engine that rejects every source handed to it; it closes the examples.\<close>

definition rejecting :: engine where
  "rejecting src s = Inl (''Invalid regular expression: /'' @ src @ ''/'')"

subsection \<open>The pattern matcher (the callback of \<^verbatim>\<open>patterns.some\<close>)\<close>

text \<open>\<^verbatim>\<open>pattern.replace(/\*/g, '.*')\<close>.\<close>

definition replace_stars :: "string \<Rightarrow> string" where
  "replace_stars pattern = concat (map (\<lambda>c. if c = CHR ''*'' then ''.*'' else [c]) pattern)"

definition pattern_matches :: "engine \<Rightarrow> string \<Rightarrow> string \<Rightarrow> error + bool" where
  "pattern_matches engine name pattern =
     (if str_includes pattern (CHR ''*'') then
        (case RegExp_test engine (''^'' @ replace_stars pattern @ ''$'') name of
           Inl m \<Rightarrow> Inl (RegExpSyntaxError m)
         | Inr b \<Rightarrow> Inr b)
      else Inr (name = pattern))"

text \<open>
  \<^verbatim>\<open>patterns.some(...)\<close>: the patterns in order, stopping at the first that matches;
  an exception of the callback leaves the scan.
\<close>

fun some_pattern :: "engine \<Rightarrow> string \<Rightarrow> string list \<Rightarrow> error + bool" where
  "some_pattern engine name [] = Inr False"
| "some_pattern engine name (pattern # patterns) =
     (case pattern_matches engine name pattern of
        Inl e \<Rightarrow> Inl e
      | Inr True \<Rightarrow> Inr True
      | Inr False \<Rightarrow> some_pattern engine name patterns)"

subsection \<open>Paths: \<^verbatim>\<open>path.join\<close> of Node on POSIX\<close>

text \<open>
  \<^verbatim>\<open>path.join(a, b)\<close> joins its non-empty arguments with a slash and normalises the
  result: empty and \<^verbatim>\<open>.\<close> segments are dropped, a \<^verbatim>\<open>..\<close> segment removes the
  segment before it (and is kept at the front of a relative path, where there is none). The
  stack of segments kept so far has its top first.
\<close>

definition normalize_step :: "bool \<Rightarrow> string list \<Rightarrow> string \<Rightarrow> string list" where
  "normalize_step allowAboveRoot stack seg =
     (if seg = [] \<or> seg = ''.'' then stack
      else if seg = ''..'' then
        (case stack of
           [] \<Rightarrow> if allowAboveRoot then [''..''] else []
         | seg0 # below \<Rightarrow>
             if seg0 = ''..'' then (if allowAboveRoot then ''..'' # stack else stack)
             else below)
      else seg # stack)"

definition normalizeString :: "string \<Rightarrow> bool \<Rightarrow> string" where
  "normalizeString path allowAboveRoot =
     js_join (CHR ''/'') (rev (foldl (normalize_step allowAboveRoot) [] (js_split (CHR ''/'') path)))"

definition path_normalize :: "string \<Rightarrow> string" where
  "path_normalize path =
     (if path = [] then ''.''
      else
        (let isAbsolute = (hd path = CHR ''/'');
             trailingSeparator = (last path = CHR ''/'');
             res = normalizeString path (\<not> isAbsolute)
         in if res = [] then (if isAbsolute then ''/'' else if trailingSeparator then ''./'' else ''.'')
            else (if isAbsolute then ''/'' else []) @ res @ (if trailingSeparator then ''/'' else [])))"

definition path_join :: "string \<Rightarrow> string \<Rightarrow> string" where
  "path_join a b =
     (case filter (\<lambda>arg. arg \<noteq> []) [a, b] of
        [] \<Rightarrow> ''.''
      | args \<Rightarrow> path_normalize (js_join (CHR ''/'') args))"

subsection \<open>The directory tree\<close>

text \<open>
  What \<^verbatim>\<open>readdirSync(dir, { withFileTypes: true })\<close> finds: a directory lists its
  entries, each a name and what is there. \<open>Other\<close> is anything whose
  \<^verbatim>\<open>isDirectory()\<close> is false (a file, a symbolic link); \<open>Unreadable m\<close> is a
  directory whose enumeration throws an error of message \<open>m\<close> (permission denied,
  deleted meanwhile).
\<close>

datatype fs_node =
    Other
  | Unreadable string
  | Dir "(string \<times> fs_node) list"

fun isDirectory :: "fs_node \<Rightarrow> bool" where
  "isDirectory Other = False"
| "isDirectory (Unreadable m) = True"
| "isDirectory (Dir entries) = True"

definition enotdir :: "string \<Rightarrow> string" where
  "enotdir dir = ''ENOTDIR: not a directory, scandir '' @ [SQUOTE] @ dir @ [SQUOTE]"

subsection \<open>findExcludedDirs\<close>

text \<open>
  \<open>findExcludedDirs engine dir patterns node\<close> is the call
  \<^verbatim>\<open>findExcludedDirs(dir, patterns)\<close> when \<open>node\<close> is what the file system has at
  \<open>dir\<close>; its first equations are \<^verbatim>\<open>readdirSync\<close>. \<open>scan_entries\<close> is the
  \<^verbatim>\<open>for\<close> loop over the entries: the paths an iteration pushes come before those of
  the iterations after it. Both return the console lines printed and the result, an
  exception or the array returned. An exception of the recursive call is caught and
  printed, and the loop goes on; an exception of \<^verbatim>\<open>patterns.some\<close> is not caught
  here and ends this call, whose array is lost.
\<close>

fun findExcludedDirs :: "engine \<Rightarrow> string \<Rightarrow> string list \<Rightarrow> fs_node \<Rightarrow> string list \<times> (error + string list)"
  and scan_entries :: "engine \<Rightarrow> string \<Rightarrow> string list \<Rightarrow> (string \<times> fs_node) list \<Rightarrow> string list \<times> (error + string list)"
  where
  "findExcludedDirs engine dir patterns Other = ([], Inl (ReaddirFailed (enotdir dir)))"
| "findExcludedDirs engine dir patterns (Unreadable m) = ([], Inl (ReaddirFailed m))"
| "findExcludedDirs engine dir patterns (Dir entries) = scan_entries engine dir patterns entries"
| "scan_entries engine dir patterns [] = ([], Inr [])"
| "scan_entries engine dir patterns ((name, node) # rest) =
     (let fullPath = path_join dir name in
      if isDirectory node then
        (case some_pattern engine name patterns of
           Inl e \<Rightarrow> ([], Inl e)
         | Inr True \<Rightarrow>
             (case scan_entries engine dir patterns rest of
                (out, r) \<Rightarrow> (out, map_sum id ((#) fullPath) r))
         | Inr False \<Rightarrow>
             (case findExcludedDirs engine fullPath patterns node of
                (out1, Inl e) \<Rightarrow>
                  (case scan_entries engine dir patterns rest of
                     (out2, r) \<Rightarrow>
                       (out1 @ [''Error accessing '' @ fullPath @ '': '' @ message e] @ out2, r))
              | (out1, Inr found) \<Rightarrow>
                  (case scan_entries engine dir patterns rest of
                     (out2, r) \<Rightarrow> (out1 @ out2, map_sum id ((@) found) r))))
      else scan_entries engine dir patterns rest)"

subsection \<open>The configuration and the world outside\<close>

record config =
  parentDirs :: "string list"
  excludePatterns :: "string list"

text \<open>
  The part of the machine the commands read and write: the home directory, the
  configuration file (absent, or holding a configuration: reading JSON is not modelled), the
  exclusion file (absent, or its text), what the file system has at a path, and the shell,
  which for a command line either exits with status zero (\<open>None\<close>) or makes
  \<^verbatim>\<open>execSync\<close> throw an error of the given message. Writing a file is taken to succeed.
\<close>

record world =
  homedir :: string
  configFile :: "config option"
  exclusionFile :: "string option"
  lookup :: "string \<Rightarrow> fs_node option"
  execFails :: "string \<Rightarrow> string option"

definition exclusionFilePath :: "world \<Rightarrow> string" where
  "exclusionFilePath w = path_join (homedir w) ''.tm_exclusions_tm_exclude''"

definition configFilePath :: "world \<Rightarrow> string" where
  "configFilePath w = path_join (homedir w) ''.tm_exclude_config''"

definition existsSync :: "world \<Rightarrow> string \<Rightarrow> bool" where
  "existsSync w p = (lookup w p \<noteq> None)"

definition loadConfig :: "world \<Rightarrow> error + config" where
  "loadConfig w =
     (case configFile w of
        None \<Rightarrow> Inl (ConfigMissing
          (''Configuration file not found. Please run '' @ [SQUOTE] @ ''timemachine-exclude init''
             @ [SQUOTE] @ '' first.''))
      | Some c \<Rightarrow> Inr c)"

subsection \<open>populateExclusions\<close>

text \<open>The header written first; \<open>ts\<close> is \<^verbatim>\<open>new Date().toISOString()\<close>.\<close>

definition header :: "string \<Rightarrow> string" where
  "header ts = ''# Time Machine Exclusions - Generated by timemachine-exclude on '' @ ts @ [LF, LF]"

text \<open>
  One step of \<^verbatim>\<open>excludedDirs.forEach\<close>: the path and a newline are appended to the
  file, and a line is printed. The state is the text of the file and the lines printed.
\<close>

definition record_excluded :: "string \<times> string list \<Rightarrow> string \<Rightarrow> string \<times> string list" where
  "record_excluded st excludedDir =
     (fst st @ excludedDir @ [LF], snd st @ [''Excluded: '' @ excludedDir])"

text \<open>
  The loop over \<^verbatim>\<open>config.parentDirs\<close>, from the text the file has so far: the new
  text, the lines printed and the outcome. An exception of \<^verbatim>\<open>findExcludedDirs\<close>
  (the parent directory itself cannot be read, or a pattern is rejected there) ends the
  command, and the file keeps what was written before.
\<close>

fun populate_dirs :: "engine \<Rightarrow> world \<Rightarrow> string list \<Rightarrow> string list \<Rightarrow> string \<Rightarrow> string \<times> string list \<times> (error + unit)" where
  "populate_dirs engine w patterns [] text = (text, [], Inr ())"
| "populate_dirs engine w patterns (dir # dirs) text =
     (case lookup w dir of
        None \<Rightarrow>
          (case populate_dirs engine w patterns dirs text of
             (text', out, r) \<Rightarrow> (text', (''Directory not found: '' @ dir @ ''. Skipping.'') # out, r))
      | Some node \<Rightarrow>
          (case findExcludedDirs engine dir patterns node of
             (out1, Inl e) \<Rightarrow> (text, (''Searching in: '' @ dir) # out1, Inl e)
           | (out1, Inr excludedDirs) \<Rightarrow>
               (case foldl record_excluded (text, []) excludedDirs of
                  (text1, out2) \<Rightarrow>
                    (case populate_dirs engine w patterns dirs text1 of
                       (text', out3, r) \<Rightarrow>
                         (text', (''Searching in: '' @ dir) # out1 @ out2 @ out3, r)))))"

definition populateExclusions :: "string \<Rightarrow> engine \<Rightarrow> world \<Rightarrow> world \<times> string list \<times> (error + unit)" where
  "populateExclusions ts engine w =
     (case loadConfig w of
        Inl e \<Rightarrow> (w, [], Inl e)
      | Inr config \<Rightarrow>
          (case populate_dirs engine w (excludePatterns config) (parentDirs config) (header ts) of
             (text, out, r) \<Rightarrow>
               (w\<lparr>exclusionFile := Some text\<rparr>,
                ''Populating exclusions...'' # out @
                  (case r of
                     Inl e \<Rightarrow> []
                   | Inr u \<Rightarrow> [LF # ''All excluded directories have been listed in '' @ exclusionFilePath w]),
                r)))"

subsection \<open>applyExclusions\<close>

definition tmutil_command :: "string \<Rightarrow> string" where
  "tmutil_command line = ''tmutil addexclusion '' @ [DQUOTE] @ line @ [DQUOTE]"

text \<open>
  The loop over the lines of the file: the lines printed, the command lines handed to
  \<^verbatim>\<open>execSync\<close> in order, and the outcome. \<^verbatim>\<open>execSync\<close> is called outside any
  \<^verbatim>\<open>try\<close>, so its exception ends the loop and the command.
\<close>

fun apply_lines :: "world \<Rightarrow> string list \<Rightarrow> string list \<times> string list \<times> (error + unit)" where
  "apply_lines w [] = ([], [], Inr ())"
| "apply_lines w (line # lines) =
     (if line = [] \<or> startsWith line ''#'' then apply_lines w lines
      else if existsSync w line then
        (case execFails w (tmutil_command line) of
           Some m \<Rightarrow> ([], [tmutil_command line], Inl (CommandFailed m))
         | None \<Rightarrow>
             (case apply_lines w lines of
                (out, cmds, r) \<Rightarrow>
                  ((''Added exclusion: '' @ line) # out, tmutil_command line # cmds, r)))
      else
        (case apply_lines w lines of
           (out, cmds, r) \<Rightarrow>
             ((''Path does not exist: '' @ line @ ''. Skipping.'') # out, cmds, r)))"

definition applyExclusions :: "world \<Rightarrow> string list \<times> string list \<times> (error + unit)" where
  "applyExclusions w =
     (case exclusionFile w of
        None \<Rightarrow>
          ([], [], Inl (ExclusionListMissing
             (''Exclusion file '' @ exclusionFilePath w @ '' not found. Please run '' @ [SQUOTE]
                @ ''timemachine-exclude populate'' @ [SQUOTE] @ '' first.'')))
      | Some text \<Rightarrow>
          (case apply_lines w (js_split LF text) of
             (out, cmds, r) \<Rightarrow>
               (''Applying exclusions to Time Machine...'' # out @
                  (case r of
                     Inl e \<Rightarrow> []
                   | Inr u \<Rightarrow> [''All exclusions have been applied to Time Machine.'']),
                cmds, r)))"

subsection \<open>updateExclusions and listExclusions\<close>

definition updateExclusions :: "string \<Rightarrow> engine \<Rightarrow> world \<Rightarrow> world \<times> string list \<times> string list \<times> (error + unit)" where
  "updateExclusions ts engine w =
     (case populateExclusions ts engine w of
        (w1, out1, Inl e) \<Rightarrow> (w1, out1, [], Inl e)
      | (w1, out1, Inr u) \<Rightarrow>
          (case applyExclusions w1 of
             (out2, cmds, r) \<Rightarrow> (w1, out1 @ out2, cmds, r)))"

text \<open>The loop of \<^verbatim>\<open>listExclusions\<close>: the lines it prints.\<close>

fun list_lines :: "string list \<Rightarrow> string list" where
  "list_lines [] = []"
| "list_lines (line # lines) =
     (if line = [] \<or> startsWith line ''#'' then list_lines lines
      else line # list_lines lines)"

definition listExclusions :: "world \<Rightarrow> string list \<times> (error + unit)" where
  "listExclusions w =
     (case exclusionFile w of
        None \<Rightarrow>
          ([''Listing current Time Machine exclusions for node_modules:''],
           Inl (ExclusionListMissing
             (''No exclusion file found. Please run '' @ [SQUOTE] @ ''timemachine-exclude populate''
                @ [SQUOTE] @ '' first.'')))
      | Some text \<Rightarrow>
          (''Listing current Time Machine exclusions for node_modules:'' # list_lines (js_split LF text),
           Inr ()))"

section \<open>Notions of the specification\<close>

text \<open>
  The wildcard semantics the specification states, written from its words: each
  \<^verbatim>\<open>*\<close> of the pattern stands for any sequence of zero or more characters, every other
  character for itself, and the pattern has to cover the whole name.
\<close>

fun glob_match :: "string \<Rightarrow> string \<Rightarrow> bool" where
  "glob_match [] s = (s = [])"
| "glob_match (p # ps) [] = (p = CHR ''*'' \<and> glob_match ps [])"
| "glob_match (p # ps) (x # xs) =
     (if p = CHR ''*'' then glob_match ps (x # xs) \<or> glob_match (p # ps) xs
      else p = x \<and> glob_match ps xs)"

text \<open>The line \<^verbatim>\<open>applyExclusions\<close> prints for an entry whose command does not fail.\<close>

definition apply_report :: "world \<Rightarrow> string \<Rightarrow> string" where
  "apply_report w line =
     (if existsSync w line then ''Added exclusion: '' @ line
      else ''Path does not exist: '' @ line @ ''. Skipping.'')"


text \<open>
  The names a directory listing can hold: not empty, not \<^verbatim>\<open>.\<close> or \<^verbatim>\<open>..\<close>,
  and without a slash. A tree is well named when all names in it are such.
\<close>

definition valid_name :: "string \<Rightarrow> bool" where
  "valid_name name = (name \<noteq> [] \<and> name \<noteq> ''.'' \<and> name \<noteq> ''..'' \<and> CHR ''/'' \<notin> set name)"

fun well_named :: "fs_node \<Rightarrow> bool"
  and well_named_entries :: "(string \<times> fs_node) list \<Rightarrow> bool" where
  "well_named Other = True"
| "well_named (Unreadable m) = True"
| "well_named (Dir entries) = well_named_entries entries"
| "well_named_entries [] = True"
| "well_named_entries ((name, node) # rest) =
     (valid_name name \<and> well_named node \<and> well_named_entries rest)"

text \<open>The base name of a path: what comes after its last slash.\<close>

definition basename :: "string \<Rightarrow> string" where
  "basename p = last (js_split (CHR ''/'') p)"

text \<open>\<open>p\<close> lies below \<open>q\<close>: it begins with \<open>q\<close> and a slash.\<close>

definition is_below :: "string \<Rightarrow> string \<Rightarrow> bool" where
  "is_below p q = prefix (q @ ''/'') p"

text \<open>
  The names from the scanned directory down to a directory the scan records: the scan
  entered each but the last, which no pattern matched, and some pattern matches the last.
\<close>

definition scan_chain :: "engine \<Rightarrow> string list \<Rightarrow> string list \<Rightarrow> bool" where
  "scan_chain engine patterns chain =
     (chain \<noteq> [] \<and> list_all valid_name chain
      \<and> some_pattern engine (last chain) patterns = Inr True
      \<and> list_all (\<lambda>n. some_pattern engine n patterns = Inr False) (butlast chain))"

text \<open>The tree in which every directory that cannot be enumerated is an empty directory.\<close>

primrec emptied :: "fs_node \<Rightarrow> fs_node" where
  "emptied Other = Other"
| "emptied (Unreadable m) = Dir []"
| "emptied (Dir entries) = Dir (map (map_prod id emptied) entries)"

definition emptied_entries :: "(string \<times> fs_node) list \<Rightarrow> (string \<times> fs_node) list" where
  "emptied_entries entries = map (map_prod id emptied) entries"

text \<open>
  The stacks \<^verbatim>\<open>path.normalize\<close> ends with: segments that are not empty, not
  \<^verbatim>\<open>.\<close> and without a slash, with \<^verbatim>\<open>..\<close> only at the bottom of a relative path.
\<close>

fun normal_stack :: "bool \<Rightarrow> string list \<Rightarrow> bool" where
  "normal_stack allow [] = True"
| "normal_stack allow (seg # below) =
     (seg \<noteq> [] \<and> seg \<noteq> ''.'' \<and> CHR ''/'' \<notin> set seg
      \<and> (seg = ''..'' \<longrightarrow> allow \<and> (\<forall>t\<in>set below. t = ''..''))
      \<and> normal_stack allow below)"

section \<open>Example worlds\<close>

text \<open>
  The scenario of the specification: \<^verbatim>\<open>/home/u/Projects\<close> holds
  \<^verbatim>\<open>app/node_modules\<close>, \<^verbatim>\<open>app/dist\<close> and \<^verbatim>\<open>app/src/index.js\<close>.
\<close>

definition scenario_tree :: fs_node where
  "scenario_tree =
     Dir [(''app'', Dir [(''node_modules'', Dir [(''left-pad'', Dir [])]),
                        (''dist'', Dir []),
                        (''src'', Dir [(''index.js'', Other)])])]"

definition sample_ts :: string where
  "sample_ts = ''2024-05-01T10:00:00.000Z''"

definition sample_text :: string where
  "sample_text =
     header sample_ts @ ''/home/u/Projects/app/node_modules'' @ [LF]
       @ ''/home/u/Projects/app/dist'' @ [LF]"

text \<open>
  A world after a populate run in which \<^verbatim>\<open>app/node_modules\<close> has been deleted since;
  no command fails.
\<close>

definition sample_world :: world where
  "sample_world =
     \<lparr> homedir = ''/home/u'',
       configFile = Some \<lparr> parentDirs = [''/home/u/Projects'', ''/home/u/Workspace''],
                           excludePatterns = [''node_modules'', ''dist''] \<rparr>,
       exclusionFile = Some sample_text,
       lookup = map_of [(''/home/u/Projects'', scenario_tree),
                        (''/home/u/Projects/app/dist'', Dir [])],
       execFails = (\<lambda>command. None) \<rparr>"

text \<open>
  The same exclusion file where both paths exist and \<^verbatim>\<open>tmutil\<close> fails on the first.
\<close>

definition failing_world :: world where
  "failing_world =
     sample_world
       \<lparr> lookup := map_of [(''/home/u/Projects/app/node_modules'', Dir []),
                          (''/home/u/Projects/app/dist'', Dir [])],
         execFails := (\<lambda>command.
            if command = tmutil_command ''/home/u/Projects/app/node_modules''
            then Some ''Command failed: tmutil addexclusion'' else None) \<rparr>"

text \<open>A directory whose name holds a newline, with a \<^verbatim>\<open>node_modules\<close> in it.\<close>

definition newline_tree :: fs_node where
  "newline_tree = Dir [(''a'' @ [LF] @ ''b'', Dir [(''node_modules'', Dir [])])]"

definition newline_world :: world where
  "newline_world =
     \<lparr> homedir = ''/home/u'',
       configFile = Some \<lparr> parentDirs = [''/r''], excludePatterns = [''node_modules''] \<rparr>,
       exclusionFile = None,
       lookup = map_of [(''/r'', newline_tree)],
       execFails = (\<lambda>command. None) \<rparr>"

section \<open>Properties\<close>

lemmas char_defs = LF_def CR_def DQUOTE_def SQUOTE_def BACKSLASH_def

lemmas matcher_defs =
  pattern_matches_def str_includes_def replace_stars_def RegExp_test_def parse_anchored_def
  syntax_char_def line_terminator_def

subsection \<open>The pattern matcher\<close>

lemma pattern_matches_literal:
  "CHR ''*'' \<notin> set pattern \<Longrightarrow> pattern_matches engine name pattern = Inr (name = pattern)"
  by (simp add: pattern_matches_def str_includes_def)

lemma some_pattern_literal:
  "\<forall>p\<in>set patterns. CHR ''*'' \<notin> set p \<Longrightarrow>
   some_pattern engine name patterns = Inr (name \<in> set patterns)"
  by (induction patterns) (auto simp: pattern_matches_literal split: bool.splits)

text \<open>
  C9. A pattern without \<^verbatim>\<open>*\<close> is compared with the name by string equality, whatever
  other characters it holds and whatever the regular expression engine is: no regular
  expression is built for it. So the pattern \<^verbatim>\<open>a.b\<close> matches the name \<^verbatim>\<open>a.b\<close>
  and does not match \<^verbatim>\<open>aXb\<close>.
\<close>

theorem literal_pattern_is_not_compiled:
  "(CHR ''*'' \<notin> set pattern \<longrightarrow> pattern_matches engine name pattern = Inr (name = pattern))
   \<and> pattern_matches engine ''a.b'' ''a.b'' = Inr True
   \<and> pattern_matches engine ''aXb'' ''a.b'' = Inr False"
  by (simp add: pattern_matches_literal)

theorem literal_pattern_is_not_compiled_witness:
  "CHR ''*'' \<notin> set ''a+(b'' \<and> pattern_matches rejecting ''a+(b'' ''a+(b'' = Inr True"
  using literal_pattern_is_not_compiled [of "''a+(b''" rejecting "''a+(b''"] by simp

text \<open>
  C6. A pattern without \<^verbatim>\<open>*\<close> matches a name exactly when the two strings are equal
  (equality of strings tells upper from lower case). In the scan the name compared is the
  entry's own name, never the joined path: a directory entry \<open>name\<close> of \<open>dir\<close> is
  recorded when \<open>name\<close> equals the pattern, and entered otherwise, whatever \<open>dir\<close> is.
\<close>

theorem literal_pattern_matches_base_name:
  assumes "CHR ''*'' \<notin> set pattern"
  shows "pattern_matches engine name pattern = Inr (name = pattern)
    \<and> snd (scan_entries engine dir [pattern] [(name, node)]) =
        (if \<not> isDirectory node then Inr []
         else if name = pattern then Inr [path_join dir name]
         else Inr (case snd (findExcludedDirs engine (path_join dir name) [pattern] node) of
                     Inl e \<Rightarrow> []
                   | Inr found \<Rightarrow> found))"
  using assms
  by (auto simp: pattern_matches_literal Let_def split: sum.splits prod.splits bool.splits)

theorem literal_pattern_matches_base_name_witness:
  "CHR ''*'' \<notin> set ''dist''
   \<and> pattern_matches rejecting ''Dist'' ''dist'' = Inr False
   \<and> snd (scan_entries rejecting ''/dist'' [''dist''] [(''Dist'', Dir [])]) = Inr []"
proof -
  have h: "CHR ''*'' \<notin> set ''dist''" by simp
  from literal_pattern_matches_base_name [OF h, of rejecting "''Dist''" "''/dist''" "Dir []"]
  show ?thesis using h by simp
qed

text \<open>
  C5. The code on the pattern \<^verbatim>\<open>*.cache\<close> and the directory name \<^verbatim>\<open>xcache\<close>: the
  pattern matches, since its dot is left in the regular expression, where it stands for any
  character; no way of filling in the \<^verbatim>\<open>*\<close> makes the pattern equal to the name.
\<close>

theorem wildcard_pattern_dot_matches_any_character:
  "pattern_matches engine ''xcache'' ''*.cache'' = Inr True \<and> \<not> glob_match ''*.cache'' ''xcache''"
  by (simp add: matcher_defs char_defs)

lemma wildcard_pattern_anchored_examples:
  "pattern_matches engine ''foo.cache'' ''*.cache'' = Inr True
   \<and> pattern_matches engine ''foo.cache.bak'' ''*.cache'' = Inr False"
  by (simp add: matcher_defs char_defs)

text \<open>
  How far the wildcard patterns agree with the specification: when every character of the
  pattern other than \<^verbatim>\<open>*\<close> is an ordinary character and the name holds no line
  terminator, the code matches exactly when the wildcard expansion covers the name.
\<close>

lemma parse_items_wildcards:
  "\<forall>c\<in>set pattern. c = CHR ''*'' \<or> \<not> syntax_char c \<Longrightarrow>
   parse_items (replace_stars pattern)
     = Some (map (\<lambda>c. if c = CHR ''*'' then AnyRun else Lit c) pattern)"
proof (induction pattern)
  case Nil
  then show ?case by (simp add: replace_stars_def)
next
  case (Cons c pattern)
  then have IH: "parse_items (replace_stars pattern)
     = Some (map (\<lambda>c. if c = CHR ''*'' then AnyRun else Lit c) pattern)"
    by simp
  show ?case
  proof (cases "c = CHR ''*''")
    case True
    have "replace_stars (c # pattern) = CHR ''.'' # CHR ''*'' # replace_stars pattern"
      using True by (simp add: replace_stars_def)
    then show ?thesis using True IH by simp
  next
    case False
    with Cons.prems have c: "\<not> syntax_char c" by simp
    then have "c \<noteq> CHR ''.''" by (auto simp: syntax_char_def)
    moreover have "replace_stars (c # pattern) = c # replace_stars pattern"
      using False by (simp add: replace_stars_def)
    ultimately show ?thesis using False c IH by simp
  qed
qed

lemma match_items_wildcards:
  "\<forall>x\<in>set s. \<not> line_terminator x \<Longrightarrow>
   match_items (map (\<lambda>c. if c = CHR ''*'' then AnyRun else Lit c) pattern) s = glob_match pattern s"
  by (induction pattern s rule: glob_match.induct) auto

lemma wildcard_pattern_of_ordinary_characters:
  assumes "CHR ''*'' \<in> set pattern"
    and "\<forall>c\<in>set pattern. c = CHR ''*'' \<or> \<not> syntax_char c"
    and "\<forall>x\<in>set name. \<not> line_terminator x"
  shows "pattern_matches engine name pattern = Inr (glob_match pattern name)"
proof -
  have "parse_anchored (''^'' @ replace_stars pattern @ ''$'') = parse_items (replace_stars pattern)"
    by (simp add: parse_anchored_def)
  with assms show ?thesis
    by (simp add: pattern_matches_def str_includes_def RegExp_test_def
        parse_items_wildcards match_items_wildcards)
qed

subsection \<open>The lines of the exclusion file\<close>

lemma apply_lines_append:
  "apply_lines w (xs @ ys) =
     (case apply_lines w xs of
        (out1, cmds1, Inl e) \<Rightarrow> (out1, cmds1, Inl e)
      | (out1, cmds1, Inr u) \<Rightarrow>
          (case apply_lines w ys of (out2, cmds2, r) \<Rightarrow> (out1 @ out2, cmds1 @ cmds2, r)))"
  by (induction xs) (auto split: prod.splits sum.splits option.splits)

lemma apply_lines_listed: "apply_lines w (list_lines lines) = apply_lines w lines"
  by (induction lines) (auto split: prod.splits option.splits)

lemma apply_lines_all_ok:
  "\<forall>l\<in>set (list_lines lines). existsSync w l \<longrightarrow> execFails w (tmutil_command l) = None \<Longrightarrow>
   apply_lines w lines =
     (map (apply_report w) (list_lines lines),
      map tmutil_command (filter (existsSync w) (list_lines lines)), Inr ())"
  by (induction lines) (auto simp: apply_report_def split: prod.splits option.splits)

lemma js_split_line:
  "sep \<notin> set l \<Longrightarrow> js_split sep (l @ sep # rest) = l # js_split sep rest"
  by (induction l) (auto split: list.splits)

lemma js_split_sample_text:
  "js_split LF sample_text =
     [''# Time Machine Exclusions - Generated by timemachine-exclude on 2024-05-01T10:00:00.000Z'',
      [], ''/home/u/Projects/app/node_modules'', ''/home/u/Projects/app/dist'', []]"
  by (simp add: sample_text_def header_def sample_ts_def LF_def)

text \<open>
  C10. \<^verbatim>\<open>applyExclusions\<close> does on the lines of the file what it does on the lines
  \<^verbatim>\<open>listExclusions\<close> prints after its title; and when no command fails, it reports on
  each of these lines, in their order, one line each (added, or skipped as missing), and
  runs the command for those that exist.
\<close>

theorem list_and_apply_take_the_same_lines:
  assumes "exclusionFile w = Some content"
  shows "apply_lines w (js_split LF content) = apply_lines w (tl (fst (listExclusions w)))
    \<and> ((\<forall>l\<in>set (tl (fst (listExclusions w))).
           existsSync w l \<longrightarrow> execFails w (tmutil_command l) = None)
       \<longrightarrow> applyExclusions w =
            (''Applying exclusions to Time Machine...''
               # map (apply_report w) (tl (fst (listExclusions w)))
               @ [''All exclusions have been applied to Time Machine.''],
             map tmutil_command (filter (existsSync w) (tl (fst (listExclusions w)))),
             Inr ()))"
  using assms
  by (auto simp: listExclusions_def applyExclusions_def apply_lines_listed apply_lines_all_ok)

theorem list_and_apply_take_the_same_lines_witness:
  "exclusionFile sample_world = Some sample_text
   \<and> tl (fst (listExclusions sample_world))
       = [''/home/u/Projects/app/node_modules'', ''/home/u/Projects/app/dist'']
   \<and> applyExclusions sample_world =
       ([''Applying exclusions to Time Machine...'',
         ''Path does not exist: /home/u/Projects/app/node_modules. Skipping.'',
         ''Added exclusion: /home/u/Projects/app/dist'',
         ''All exclusions have been applied to Time Machine.''],
        [tmutil_command ''/home/u/Projects/app/dist''],
        Inr ())"
proof -
  have present: "exclusionFile sample_world = Some sample_text"
    by (simp add: sample_world_def)
  have listed: "tl (fst (listExclusions sample_world))
       = [''/home/u/Projects/app/node_modules'', ''/home/u/Projects/app/dist'']"
    by (simp add: listExclusions_def present js_split_sample_text startsWith_def)
  have ok: "\<forall>l\<in>set (tl (fst (listExclusions sample_world))).
      existsSync sample_world l \<longrightarrow> execFails sample_world (tmutil_command l) = None"
    by (simp add: sample_world_def)
  from list_and_apply_take_the_same_lines [OF present] ok
  have "applyExclusions sample_world =
            (''Applying exclusions to Time Machine...''
               # map (apply_report sample_world) (tl (fst (listExclusions sample_world)))
               @ [''All exclusions have been applied to Time Machine.''],
             map tmutil_command (filter (existsSync sample_world) (tl (fst (listExclusions sample_world)))),
             Inr ())"
    by blast
  then show ?thesis
    unfolding listed using present listed
    by (simp add: apply_report_def existsSync_def sample_world_def)
qed

text \<open>
  C1, as the code has it. \<^verbatim>\<open>tmutil\<close> fails on the first path of the file: the command
  ends there with the exception, nothing is recorded for that entry, and the second path,
  which exists, is never handed to \<^verbatim>\<open>tmutil\<close>.
\<close>

theorem apply_aborts_at_failed_command_example:
  "applyExclusions failing_world =
     ([''Applying exclusions to Time Machine...''],
      [tmutil_command ''/home/u/Projects/app/node_modules''],
      Inl (CommandFailed ''Command failed: tmutil addexclusion''))
   \<and> existsSync failing_world ''/home/u/Projects/app/dist''
   \<and> tmutil_command ''/home/u/Projects/app/dist'' \<notin> set (fst (snd (applyExclusions failing_world)))"
  by (simp add: applyExclusions_def failing_world_def sample_world_def js_split_sample_text
      existsSync_def startsWith_def tmutil_command_def)

text \<open>
  C1 (amended). When the loop reaches an entry that exists and the external command fails
  on it, \<^verbatim>\<open>applyExclusions\<close> ends there with that error: what was printed and run for
  the lines before stays, the failing command is the last one run, nothing is printed for
  the entry, and no later line is looked at, whatever it is.
\<close>

theorem apply_stops_at_failed_command:
  assumes "exclusionFile w = Some content"
    and "js_split LF content = pre @ line # post"
    and "apply_lines w pre = (out, cmds, Inr ())"
    and "line \<noteq> []" and "\<not> startsWith line ''#''"
    and "existsSync w line"
    and "execFails w (tmutil_command line) = Some m"
  shows "applyExclusions w =
     (''Applying exclusions to Time Machine...'' # out,
      cmds @ [tmutil_command line],
      Inl (CommandFailed m))"
  using assms by (simp add: applyExclusions_def apply_lines_append)

theorem apply_stops_at_failed_command_witness:
  "exclusionFile failing_world = Some sample_text
   \<and> existsSync failing_world ''/home/u/Projects/app/node_modules''
   \<and> execFails failing_world (tmutil_command ''/home/u/Projects/app/node_modules'')
        = Some ''Command failed: tmutil addexclusion''
   \<and> applyExclusions failing_world =
       ([''Applying exclusions to Time Machine...''],
        [tmutil_command ''/home/u/Projects/app/node_modules''],
        Inl (CommandFailed ''Command failed: tmutil addexclusion''))"
proof -
  let ?hd = "''# Time Machine Exclusions - Generated by timemachine-exclude on 2024-05-01T10:00:00.000Z''"
  let ?p = "''/home/u/Projects/app/node_modules''"
  have h1: "exclusionFile failing_world = Some sample_text"
    by (simp add: failing_world_def sample_world_def)
  have h2: "js_split LF sample_text = [?hd, []] @ ?p # [''/home/u/Projects/app/dist'', []]"
    by (simp add: js_split_sample_text)
  have h3: "apply_lines failing_world [?hd, []] = ([], [], Inr ())"
    by (simp add: startsWith_def)
  have h4: "?p \<noteq> []" by simp
  have h5: "\<not> startsWith ?p ''#''" by (simp add: startsWith_def)
  have h6: "existsSync failing_world ?p"
    by (simp add: existsSync_def failing_world_def)
  have h7: "execFails failing_world (tmutil_command ?p) = Some ''Command failed: tmutil addexclusion''"
    by (simp add: failing_world_def)
  from apply_stops_at_failed_command [OF h1 h2 h3 h4 h5 h6 h7] h1 h6 h7
  show ?thesis by simp
qed



subsection \<open>Writing the exclusion file\<close>

lemma foldl_record_excluded:
  "foldl record_excluded (content, out) ds =
     (content @ concat (map (\<lambda>d. d @ [LF]) ds), out @ map (\<lambda>d. ''Excluded: '' @ d) ds)"
  by (induction ds arbitrary: content out) (simp_all add: record_excluded_def)

lemma js_split_written:
  "\<forall>e\<in>set entries. LF \<notin> set e \<Longrightarrow>
   js_split LF (concat (map (\<lambda>d. d @ [LF]) entries)) = entries @ [[]]"
  by (induction entries) (simp_all add: js_split_line)

lemma list_lines_entries:
  "\<forall>e\<in>set entries. e \<noteq> [] \<and> \<not> startsWith e ''#'' \<Longrightarrow> list_lines (entries @ [[]]) = entries"
  by (induction entries) simp_all

lemma js_split_header:
  assumes "LF \<notin> set ts"
  shows "js_split LF (header ts @ rest) =
    (''# Time Machine Exclusions - Generated by timemachine-exclude on '' @ ts) # [] # js_split LF rest"
proof -
  let ?h = "''# Time Machine Exclusions - Generated by timemachine-exclude on '' @ ts"
  have "LF \<notin> set ?h"
    using assms by (simp add: LF_def)
  then have "js_split LF (?h @ LF # (LF # rest)) = ?h # js_split LF (LF # rest)"
    by (rule js_split_line)
  then show ?thesis by (simp add: header_def)
qed

text \<open>
  C4, as the code has it. A path with a newline in it, which the scan produces for a
  directory of such a name, is written as it is and read back as two entries.
\<close>

theorem newline_path_is_read_back_as_two_example:
  "snd (findExcludedDirs rejecting ''/r'' [''node_modules''] newline_tree)
     = Inr [''/r/a'' @ [LF] @ ''b/node_modules'']
   \<and> list_lines (js_split LF
        (fst (foldl record_excluded (header sample_ts, []) [''/r/a'' @ [LF] @ ''b/node_modules''])))
     = [''/r/a'', ''b/node_modules'']
   \<and> fst (listExclusions (fst (populateExclusions sample_ts rejecting newline_world)))
     = [''Listing current Time Machine exclusions for node_modules:'', ''/r/a'', ''b/node_modules'']"
  by code_simp

text \<open>
  C4 (amended). For every sequence of paths each of which is not empty, does not begin
  with \<^verbatim>\<open>#\<close> and holds no newline (and a timestamp without a newline, as
  \<^verbatim>\<open>toISOString\<close> gives), the file made of the header and the paths appended one by
  one is read back as exactly that sequence, in order, by the loop of
  \<^verbatim>\<open>listExclusions\<close>, and the loop of \<^verbatim>\<open>applyExclusions\<close> runs on exactly that
  sequence.
\<close>

theorem written_entries_are_read_back:
  assumes "LF \<notin> set ts"
    and "\<forall>e\<in>set entries. e \<noteq> [] \<and> \<not> startsWith e ''#'' \<and> LF \<notin> set e"
  shows "list_lines (js_split LF (fst (foldl record_excluded (header ts, []) entries))) = entries
     \<and> apply_lines w (js_split LF (fst (foldl record_excluded (header ts, []) entries)))
         = apply_lines w entries"
proof -
  let ?file = "fst (foldl record_excluded (header ts, []) entries)"
  have split: "js_split LF ?file =
      (''# Time Machine Exclusions - Generated by timemachine-exclude on '' @ ts) # [] # entries @ [[]]"
    using assms by (simp add: foldl_record_excluded js_split_header js_split_written)
  have listed: "list_lines (js_split LF ?file) = entries"
    unfolding split using assms(2) by (simp add: startsWith_def list_lines_entries)
  have "apply_lines w (js_split LF ?file) = apply_lines w (list_lines (js_split LF ?file))"
    by (simp only: apply_lines_listed)
  with listed show ?thesis by simp
qed

theorem written_entries_are_read_back_witness:
  "LF \<notin> set sample_ts
   \<and> list_lines (js_split LF (fst (foldl record_excluded (header sample_ts, [])
        [''/home/u/Projects/app/node_modules'', ''/home/u/Projects/app/dist''])))
     = [''/home/u/Projects/app/node_modules'', ''/home/u/Projects/app/dist'']"
proof -
  have h1: "LF \<notin> set sample_ts"
    by (simp add: sample_ts_def LF_def)
  have h2: "\<forall>e\<in>set [''/home/u/Projects/app/node_modules'', ''/home/u/Projects/app/dist''].
      e \<noteq> [] \<and> \<not> startsWith e ''#'' \<and> LF \<notin> set e"
    by (simp add: startsWith_def LF_def)
  from written_entries_are_read_back [OF h1 h2] h1 show ?thesis by simp
qed

subsection \<open>populateExclusions\<close>





subsection \<open>Paths\<close>

text \<open>
  What \<^verbatim>\<open>path.join\<close> gives for a directory and a name of a directory listing: a
  prefix that depends on the directory alone, followed by the name; and below a path so
  made, the path, a slash and the name.
\<close>

lemma js_split_nonempty: "js_split sep s \<noteq> []"
  by (induction s) (auto split: list.splits)

lemma js_split_append:
  "js_split sep (a @ sep # b) = js_split sep a @ js_split sep b"
  by (induction a) (auto simp: js_split_nonempty split: list.splits)

lemma js_split_no_sep: "sep \<notin> set s \<Longrightarrow> js_split sep s = [s]"
  by (induction s) auto

lemma js_split_pieces: "x \<in> set (js_split sep s) \<Longrightarrow> sep \<notin> set x"
  by (induction s arbitrary: x) (auto split: if_splits list.splits)

lemma js_join_Cons: "xs \<noteq> [] \<Longrightarrow> js_join sep (x # xs) = x @ sep # js_join sep xs"
  by (cases xs) auto

lemma js_join_snoc: "xs \<noteq> [] \<Longrightarrow> js_join sep (xs @ [x]) = js_join sep xs @ sep # x"
  by (induction xs rule: induct_list012) auto

lemma js_split_join:
  "xs \<noteq> [] \<Longrightarrow> \<forall>x\<in>set xs. sep \<notin> set x \<Longrightarrow> js_split sep (js_join sep xs) = xs"
proof (induction xs)
  case Nil
  then show ?case by simp
next
  case (Cons x xs)
  show ?case
  proof (cases xs)
    case Nil
    with Cons.prems show ?thesis by (simp add: js_split_no_sep)
  next
    case (Cons y ys)
    with Cons.prems Cons.IH show ?thesis
      by (simp add: js_split_append js_split_no_sep del: js_split.simps)
  qed
qed

lemma normal_step:
  "normal_stack allow st \<Longrightarrow> CHR ''/'' \<notin> set seg \<Longrightarrow> normal_stack allow (normalize_step allow st seg)"
  by (cases st) (auto simp: normalize_step_def)

lemma normal_foldl:
  "normal_stack allow st \<Longrightarrow> \<forall>seg\<in>set segs. CHR ''/'' \<notin> set seg \<Longrightarrow>
   normal_stack allow (foldl (normalize_step allow) st segs)"
  by (induction segs arbitrary: st) (simp_all add: normal_step)

lemma normal_replay:
  "normal_stack allow st \<Longrightarrow> foldl (normalize_step allow) [] (rev st) = st"
proof (induction st)
  case Nil
  then show ?case by simp
next
  case (Cons seg below)
  then have "foldl (normalize_step allow) [] (rev below) = below" by simp
  then have "foldl (normalize_step allow) [] (rev (seg # below)) = normalize_step allow below seg"
    by simp
  also have "\<dots> = seg # below"
  proof (cases "seg = ''..''")
    case True
    with Cons.prems have "allow" and "\<forall>t\<in>set below. t = ''..''" by simp_all
    with True show ?thesis by (cases below) (simp_all add: normalize_step_def)
  next
    case False
    with Cons.prems show ?thesis by (simp add: normalize_step_def)
  qed
  finally show ?case .
qed

lemma normal_valid_push:
  "normal_stack allow st \<Longrightarrow> valid_name n \<Longrightarrow> normal_stack allow (n # st)"
  by (simp add: valid_name_def)

lemma step_valid: "valid_name n \<Longrightarrow> normalize_step allow st n = n # st"
  by (simp add: valid_name_def normalize_step_def)

lemma js_join_nonempty: "xs \<noteq> [] \<Longrightarrow> \<forall>x\<in>set xs. x \<noteq> [] \<Longrightarrow> js_join sep xs \<noteq> []"
  by (induction xs rule: induct_list012) auto


lemma normal_nonempty: "normal_stack allow st \<Longrightarrow> \<forall>x\<in>set st. x \<noteq> [] \<and> CHR ''/'' \<notin> set x"
  by (induction st) auto

lemma valid_name_ends: "valid_name n \<Longrightarrow> hd n \<noteq> CHR ''/'' \<and> last n \<noteq> CHR ''/''"
  unfolding valid_name_def by (metis hd_in_set last_in_set)

lemma normalize_joined:
  assumes st: "normal_stack (\<not> absolute) st"
    and n: "valid_name n"
    and p: "p \<noteq> []" "(hd p = CHR ''/'') = absolute"
    and segs: "foldl (normalize_step (\<not> absolute)) [] (js_split (CHR ''/'') p) = st"
  shows "path_normalize (p @ CHR ''/'' # n)
       = (if absolute then ''/'' else []) @ js_join (CHR ''/'') (rev (n # st))"
proof -
  have split: "js_split (CHR ''/'') (p @ CHR ''/'' # n) = js_split (CHR ''/'') p @ [n]"
    using n by (simp add: js_split_append js_split_no_sep valid_name_def)
  have res: "normalizeString (p @ CHR ''/'' # n) (\<not> absolute) = js_join (CHR ''/'') (rev (n # st))"
    unfolding normalizeString_def split using segs n by (simp add: step_valid)
  have "\<forall>x\<in>set (rev (n # st)). x \<noteq> []"
    using normal_nonempty [OF st] n by (auto simp: valid_name_def)
  then have nonempty: "js_join (CHR ''/'') (rev (n # st)) \<noteq> []"
    by (intro js_join_nonempty) simp_all
  have ends: "hd (p @ CHR ''/'' # n) = hd p" "last (p @ CHR ''/'' # n) \<noteq> CHR ''/''"
    using p(1) n valid_name_ends [OF n] by (auto simp: valid_name_def)
  show ?thesis
    unfolding path_normalize_def Let_def ends(1) p(2)
    using res nonempty ends(2) by simp
qed

lemma path_join_shape:
  "\<exists>absolute st. normal_stack (\<not> absolute) st
     \<and> (\<forall>n. valid_name n \<longrightarrow>
           path_join d n = (if absolute then ''/'' else []) @ js_join (CHR ''/'') (rev (n # st)))"
proof (cases "d = []")
  case True
  have "path_join d n = (if False then ''/'' else []) @ js_join (CHR ''/'') (rev (n # []))"
    if n: "valid_name n" for n
  proof -
    have "n \<noteq> []" using n by (simp add: valid_name_def)
    then have "path_join d n = path_normalize n"
      using True by (simp add: path_join_def)
    moreover have "js_split (CHR ''/'') n = [n]"
      using n by (simp add: js_split_no_sep valid_name_def)
    ultimately show ?thesis
      using n valid_name_ends [OF n]
      by (simp add: path_normalize_def normalizeString_def step_valid valid_name_def)
  qed
  then show ?thesis
    by (intro exI [of _ False] exI [of _ "[]"]) simp
next
  case False
  define absolute where "absolute = (hd d = CHR ''/'')"
  define st where "st = foldl (normalize_step (\<not> absolute)) [] (js_split (CHR ''/'') d)"
  have st: "normal_stack (\<not> absolute) st"
    unfolding st_def by (intro normal_foldl) (auto dest: js_split_pieces)
  have "path_join d n = (if absolute then ''/'' else []) @ js_join (CHR ''/'') (rev (n # st))"
    if n: "valid_name n" for n
  proof -
    have "n \<noteq> []" using n by (simp add: valid_name_def)
    then have "path_join d n = path_normalize (d @ CHR ''/'' # n)"
      using False by (simp add: path_join_def)
    also have "\<dots> = (if absolute then ''/'' else []) @ js_join (CHR ''/'') (rev (n # st))"
      using st n False by (intro normalize_joined) (simp_all add: absolute_def st_def)
    finally show ?thesis .
  qed
  with st show ?thesis by blast
qed

lemma path_join_normal:
  assumes st: "normal_stack (\<not> absolute) st" and "st \<noteq> []" and m: "valid_name m"
  shows "path_join ((if absolute then ''/'' else []) @ js_join (CHR ''/'') (rev st)) m
       = (if absolute then ''/'' else []) @ js_join (CHR ''/'') (rev (m # st))"
proof -
  let ?q = "(if absolute then ''/'' else []) @ js_join (CHR ''/'') (rev st)"
  have elems: "\<forall>x\<in>set (rev st). x \<noteq> [] \<and> CHR ''/'' \<notin> set x"
    using normal_nonempty [OF st] by simp
  have joined: "js_join (CHR ''/'') (rev st) \<noteq> []"
    using elems \<open>st \<noteq> []\<close> by (intro js_join_nonempty) simp_all
  then have q: "?q \<noteq> []" by simp
  have first: "hd (js_join (CHR ''/'') (rev st)) \<noteq> CHR ''/''"
  proof -
    obtain x xs where xs: "rev st = x # xs"
      using \<open>st \<noteq> []\<close> by (cases "rev st") auto
    with elems have "x \<noteq> []" "CHR ''/'' \<notin> set x" by auto
    then have "hd x \<noteq> CHR ''/''" by (cases x) auto
    with \<open>x \<noteq> []\<close> show ?thesis
      unfolding xs by (cases xs) simp_all
  qed
  have hd: "(hd ?q = CHR ''/'') = absolute"
    using first by simp
  have "js_split (CHR ''/'') (js_join (CHR ''/'') (rev st)) = rev st"
    using elems \<open>st \<noteq> []\<close> by (intro js_split_join) simp_all
  then have "js_split (CHR ''/'') ?q = (if absolute then [[]] else []) @ rev st"
    by simp
  then have segs: "foldl (normalize_step (\<not> absolute)) [] (js_split (CHR ''/'') ?q) = st"
    using normal_replay [OF st] by (cases absolute) (simp_all add: normalize_step_def)
  have "m \<noteq> []" using m by (simp add: valid_name_def)
  then have "path_join ?q m = path_normalize (?q @ CHR ''/'' # m)"
    using q by (simp add: path_join_def)
  also have "\<dots> = (if absolute then ''/'' else []) @ js_join (CHR ''/'') (rev (m # st))"
    using st m q hd segs by (rule normalize_joined)
  finally show ?thesis .
qed

lemma path_join_prefix:
  "\<exists>B. (B = [] \<or> last B = CHR ''/'') \<and> (\<forall>n. valid_name n \<longrightarrow> path_join d n = B @ n)"
proof -
  from path_join_shape [of d] obtain absolute st where
    shape: "\<And>n. valid_name n \<Longrightarrow>
      path_join d n = (if absolute then ''/'' else []) @ js_join (CHR ''/'') (rev (n # st))"
    by blast
  let ?B = "(if absolute then ''/'' else []) @ (if st = [] then [] else js_join (CHR ''/'') (rev st) @ ''/'')"
  have "path_join d n = ?B @ n" if "valid_name n" for n
    using shape [OF that] by (simp add: js_join_snoc)
  moreover have "?B = [] \<or> last ?B = CHR ''/''" by simp
  ultimately show ?thesis by blast
qed

lemma path_join_child:
  assumes n: "valid_name n" and m: "valid_name m"
  shows "path_join (path_join d n) m = path_join d n @ CHR ''/'' # m"
proof -
  from path_join_shape [of d] obtain absolute st where
    st: "normal_stack (\<not> absolute) st" and
    shape: "\<And>n. valid_name n \<Longrightarrow>
      path_join d n = (if absolute then ''/'' else []) @ js_join (CHR ''/'') (rev (n # st))"
    by blast
  have "normal_stack (\<not> absolute) (n # st)"
    using st n by (rule normal_valid_push)
  from path_join_normal [OF this _ m]
  have "path_join (path_join d n) m
      = (if absolute then ''/'' else []) @ js_join (CHR ''/'') (rev (m # n # st))"
    by (simp add: shape [OF n])
  also have "\<dots> = (if absolute then ''/'' else []) @ js_join (CHR ''/'') (rev (n # st) @ [m])"
    by simp
  also have "\<dots> = path_join d n @ CHR ''/'' # m"
    unfolding shape [OF n] by (subst js_join_snoc) simp_all
  finally show ?thesis .
qed


subsection \<open>The scan\<close>

lemma map_sum_append_Nil: "map_sum id ((@) []) r = r"
  by (cases r) simp_all

lemma scan_entries_other:
  "\<not> isDirectory node \<Longrightarrow>
   scan_entries engine dir patterns ((name, node) # rest) = scan_entries engine dir patterns rest"
  by simp

lemma scan_entries_rejected:
  "isDirectory node \<Longrightarrow> some_pattern engine name patterns = Inl e \<Longrightarrow>
   scan_entries engine dir patterns ((name, node) # rest) = ([], Inl e)"
  by simp

lemma scan_entries_match:
  "isDirectory node \<Longrightarrow> some_pattern engine name patterns = Inr True \<Longrightarrow>
   scan_entries engine dir patterns ((name, node) # rest) =
     (fst (scan_entries engine dir patterns rest),
      map_sum id ((#) (path_join dir name)) (snd (scan_entries engine dir patterns rest)))"
  by (simp split: prod.splits)

lemma scan_entries_descend:
  "isDirectory node \<Longrightarrow> some_pattern engine name patterns = Inr False \<Longrightarrow>
   scan_entries engine dir patterns ((name, node) # rest) =
     (fst (findExcludedDirs engine (path_join dir name) patterns node)
        @ (case snd (findExcludedDirs engine (path_join dir name) patterns node) of
             Inl e \<Rightarrow> [''Error accessing '' @ path_join dir name @ '': '' @ message e]
           | Inr found \<Rightarrow> [])
        @ fst (scan_entries engine dir patterns rest),
      map_sum id
        ((@) (case snd (findExcludedDirs engine (path_join dir name) patterns node) of
                Inl e \<Rightarrow> []
              | Inr found \<Rightarrow> found))
        (snd (scan_entries engine dir patterns rest)))"
  by (simp add: Let_def map_sum_append_Nil split: prod.splits sum.splits)

lemma some_pattern_cases:
  obtains (rejected) m where "some_pattern engine name patterns = Inl (RegExpSyntaxError m)"
    | (match) "some_pattern engine name patterns = Inr True"
    | (no_match) "some_pattern engine name patterns = Inr False"
proof -
  have "(\<exists>m. some_pattern engine name patterns = Inl (RegExpSyntaxError m))
      \<or> some_pattern engine name patterns = Inr True
      \<or> some_pattern engine name patterns = Inr False"
    by (induction patterns)
       (auto simp: pattern_matches_def split: sum.splits bool.splits if_splits)
  then show ?thesis using rejected match no_match by blast
qed


lemma scan_chain_single:
  "valid_name n \<Longrightarrow> some_pattern engine n patterns = Inr True \<Longrightarrow> scan_chain engine patterns [n]"
  by (simp add: scan_chain_def)

lemma scan_chain_Cons:
  "valid_name n \<Longrightarrow> some_pattern engine n patterns = Inr False \<Longrightarrow>
   scan_chain engine patterns chain \<Longrightarrow> scan_chain engine patterns (n # chain)"
  by (simp add: scan_chain_def)

lemma scan_results_chain:
  "(\<forall>n. valid_name n \<longrightarrow> path_join dir n = B @ n) \<Longrightarrow> well_named node \<Longrightarrow>
     snd (findExcludedDirs engine dir patterns node) = Inr found \<Longrightarrow> p \<in> set found \<Longrightarrow>
     \<exists>chain. scan_chain engine patterns chain \<and> p = B @ js_join (CHR ''/'') chain"
  and scan_entries_results_chain:
  "(\<forall>n. valid_name n \<longrightarrow> path_join dir n = B @ n) \<Longrightarrow> well_named_entries entries \<Longrightarrow>
     snd (scan_entries engine dir patterns entries) = Inr found \<Longrightarrow> p \<in> set found \<Longrightarrow>
     \<exists>chain. scan_chain engine patterns chain \<and> p = B @ js_join (CHR ''/'') chain"
proof (induction engine dir patterns node and engine dir patterns entries
    arbitrary: B found p and B found p rule: findExcludedDirs_scan_entries.induct)
  case (1 engine dir patterns)
  then show ?case by simp
next
  case (2 engine dir patterns m)
  then show ?case by simp
next
  case (3 engine dir patterns entries)
  then show ?case by simp
next
  case (4 engine dir patterns)
  then show ?case by simp
next
  case (5 engine dir patterns name node rest)
  let ?rest = "scan_entries engine dir patterns rest"
  let ?child = "findExcludedDirs engine (path_join dir name) patterns node"
  from "5.prems"(2) have name: "valid_name name" and node: "well_named node"
    and rest: "well_named_entries rest"
    by simp_all
  have here: "path_join dir name = B @ name"
    using "5.prems"(1) name by blast
  show ?case
  proof (cases "isDirectory node")
    case False
    from "5.prems"(3) have "snd ?rest = Inr found"
      by (simp only: scan_entries_other [OF False])
    from "5.IH"(5) [OF refl False "5.prems"(1) rest this "5.prems"(4)] show ?thesis .
  next
    case True
    show ?thesis
    proof (cases engine name patterns rule: some_pattern_cases)
      case (rejected m)
      from "5.prems"(3) show ?thesis
        by (simp add: scan_entries_rejected [OF True rejected] del: scan_entries.simps)
    next
      case match
      from "5.prems"(3) obtain found_rest where
        found_rest: "snd ?rest = Inr found_rest" and found: "found = path_join dir name # found_rest"
        unfolding scan_entries_match [OF True match]
        by (cases "snd ?rest") auto
      show ?thesis
      proof (cases "p = path_join dir name")
        case True
        with here scan_chain_single [OF name match] show ?thesis
          by (intro exI [of _ "[name]"]) simp
      next
        case False
        with found "5.prems"(4) have "p \<in> set found_rest" by simp
        from "5.IH"(1) [OF refl True match refl "5.prems"(1) rest found_rest this]
        show ?thesis .
      qed
    next
      case no_match
      define found_child where
        "found_child = (case snd ?child of Inl e \<Rightarrow> [] | Inr found \<Rightarrow> found)"
      from "5.prems"(3) obtain found_rest where
        found_rest: "snd ?rest = Inr found_rest" and found: "found = found_child @ found_rest"
        unfolding scan_entries_descend [OF True no_match] found_child_def
        by (cases "snd ?rest") auto
      from "5.prems"(4) found consider "p \<in> set found_child" | "p \<in> set found_rest"
        by auto
      then show ?thesis
      proof cases
        case 1
        then have child: "snd ?child = Inr found_child"
          unfolding found_child_def by (cases "snd ?child") auto
        have below: "\<forall>m. valid_name m \<longrightarrow>
            path_join (path_join dir name) m = (B @ name @ ''/'') @ m"
          using path_join_child [OF name, of _ dir] unfolding here by simp
        from "5.IH"(2) [OF refl True no_match refl below node child 1]
        obtain chain where chain: "scan_chain engine patterns chain"
          and p: "p = (B @ name @ ''/'') @ js_join (CHR ''/'') chain"
          by blast
        from chain have "chain \<noteq> []" by (simp add: scan_chain_def)
        with p have "p = B @ js_join (CHR ''/'') (name # chain)"
          by (simp add: js_join_Cons)
        with scan_chain_Cons [OF name no_match chain] show ?thesis by blast
      next
        case 2
        obtain out1 r1 where c: "?child = (out1, r1)" by (cases ?child)
        show ?thesis
        proof (cases r1)
          case (Inl e)
          from "5.IH"(3) [OF refl True no_match refl c [symmetric] Inl "5.prems"(1) rest found_rest 2]
          show ?thesis .
        next
          case (Inr f)
          from "5.IH"(4) [OF refl True no_match refl c [symmetric] Inr "5.prems"(1) rest found_rest 2]
          show ?thesis .
        qed
      qed
    qed
  qed
qed


lemma some_pattern_match:
  "some_pattern engine name patterns = Inr True \<Longrightarrow>
   \<exists>pattern\<in>set patterns. pattern_matches engine name pattern = Inr True"
  by (induction patterns) (auto split: sum.splits bool.splits)

lemma basename_joined:
  assumes "B = [] \<or> last B = CHR ''/''" and "chain \<noteq> []" and "\<forall>n\<in>set chain. CHR ''/'' \<notin> set n"
  shows "basename (B @ js_join (CHR ''/'') chain) = last chain"
proof (cases "B = []")
  case True
  with assms show ?thesis by (simp add: basename_def js_split_join)
next
  case False
  with assms(1) obtain B' where "B = B' @ ''/''"
    by (cases B rule: rev_cases) auto
  then have "js_split (CHR ''/'') (B @ js_join (CHR ''/'') chain)
      = js_split (CHR ''/'') B' @ chain"
    using assms(2,3) by (simp add: js_split_append js_split_join)
  with assms(2) show ?thesis by (simp add: basename_def)
qed

lemma joined_below:
  assumes "c1 \<noteq> []" "c2 \<noteq> []"
    and "\<forall>n\<in>set c1. CHR ''/'' \<notin> set n" "\<forall>n\<in>set c2. CHR ''/'' \<notin> set n"
    and "prefix (js_join (CHR ''/'') c2 @ ''/'') (js_join (CHR ''/'') c1)"
  shows "last c2 \<in> set (butlast c1)"
proof -
  from assms(5) obtain t where "js_join (CHR ''/'') c1 = js_join (CHR ''/'') c2 @ CHR ''/'' # t"
    by (auto simp: prefix_def)
  then have "js_split (CHR ''/'') (js_join (CHR ''/'') c1)
      = js_split (CHR ''/'') (js_join (CHR ''/'') c2) @ js_split (CHR ''/'') t"
    by (simp only: js_split_append)
  then have "c1 = c2 @ js_split (CHR ''/'') t"
    using assms(1-4) by (simp add: js_split_join)
  then have "butlast c1 = c2 @ butlast (js_split (CHR ''/'') t)"
    by (simp add: butlast_append js_split_nonempty)
  with assms(2) show ?thesis by simp
qed

lemma scan_chain_names:
  "scan_chain engine patterns chain \<Longrightarrow> chain \<noteq> [] \<and> (\<forall>n\<in>set chain. CHR ''/'' \<notin> set n)"
  by (auto simp: scan_chain_def list_all_iff valid_name_def)

text \<open>
  C2. Where the names in the tree are names a directory listing can hold, every path a scan
  returns has, as the part after its last slash, a name that one of the patterns matches,
  and no path returned lies below another path returned. A directory whose name matches is
  recorded, and the loop goes on with the next entry without looking at what the
  directory holds.
\<close>

theorem scan_results_match_and_are_not_nested:
  assumes "well_named node"
    and "findExcludedDirs engine dir patterns node = (out, Inr found)"
  shows "(\<forall>p\<in>set found. \<exists>pattern\<in>set patterns. pattern_matches engine (basename p) pattern = Inr True)
       \<and> (\<forall>p\<in>set found. \<forall>q\<in>set found. \<not> is_below p q)
       \<and> (isDirectory node' \<and> some_pattern engine name' patterns = Inr True \<longrightarrow>
            scan_entries engine dir' patterns ((name', node') # rest) =
              (fst (scan_entries engine dir' patterns rest),
               map_sum id ((#) (path_join dir' name')) (snd (scan_entries engine dir' patterns rest))))"
proof -
  from path_join_prefix [of dir] obtain B where
    B: "B = [] \<or> last B = CHR ''/''" and join: "\<forall>n. valid_name n \<longrightarrow> path_join dir n = B @ n"
    by blast
  from assms(2) have found: "snd (findExcludedDirs engine dir patterns node) = Inr found"
    by simp
  have chain: "\<exists>chain. scan_chain engine patterns chain \<and> p = B @ js_join (CHR ''/'') chain"
    if "p \<in> set found" for p
    using scan_results_chain [OF join assms(1) found that] .
  have "\<exists>pattern\<in>set patterns. pattern_matches engine (basename p) pattern = Inr True"
    if "p \<in> set found" for p
  proof -
    from chain [OF that] obtain c where c: "scan_chain engine patterns c"
      and p: "p = B @ js_join (CHR ''/'') c"
      by blast
    from scan_chain_names [OF c] have "basename p = last c"
      unfolding p using B by (intro basename_joined) simp_all
    moreover from c have "some_pattern engine (last c) patterns = Inr True"
      by (simp add: scan_chain_def)
    ultimately show ?thesis by (simp add: some_pattern_match)
  qed
  moreover have "\<not> is_below p q" if "p \<in> set found" "q \<in> set found" for p q
  proof
    assume below: "is_below p q"
    from chain [OF that(1)] obtain c1 where c1: "scan_chain engine patterns c1"
      and p: "p = B @ js_join (CHR ''/'') c1"
      by blast
    from chain [OF that(2)] obtain c2 where c2: "scan_chain engine patterns c2"
      and q: "q = B @ js_join (CHR ''/'') c2"
      by blast
    from below have "prefix (js_join (CHR ''/'') c2 @ ''/'') (js_join (CHR ''/'') c1)"
      by (simp add: is_below_def p q)
    with scan_chain_names [OF c1] scan_chain_names [OF c2]
    have "last c2 \<in> set (butlast c1)"
      by (intro joined_below) simp_all
    with c1 have "some_pattern engine (last c2) patterns = Inr False"
      by (simp add: scan_chain_def list_all_iff)
    moreover from c2 have "some_pattern engine (last c2) patterns = Inr True"
      by (simp add: scan_chain_def)
    ultimately show False by simp
  qed
  moreover have "scan_entries engine dir' patterns ((name', node') # rest) =
      (fst (scan_entries engine dir' patterns rest),
       map_sum id ((#) (path_join dir' name')) (snd (scan_entries engine dir' patterns rest)))"
    if "isDirectory node'" "some_pattern engine name' patterns = Inr True"
    using that by (rule scan_entries_match)
  ultimately show ?thesis by blast
qed

theorem scan_results_match_and_are_not_nested_witness:
  "well_named scenario_tree
   \<and> findExcludedDirs rejecting ''/home/u/Projects'' [''node_modules'', ''dist''] scenario_tree
       = ([], Inr [''/home/u/Projects/app/node_modules'', ''/home/u/Projects/app/dist''])
   \<and> (\<exists>pattern\<in>set [''node_modules'', ''dist''].
         pattern_matches rejecting (basename ''/home/u/Projects/app/dist'') pattern = Inr True)
   \<and> \<not> is_below ''/home/u/Projects/app/node_modules'' ''/home/u/Projects/app/dist''
   \<and> some_pattern rejecting ''node_modules'' [''node_modules'', ''dist''] = Inr True
   \<and> scan_entries rejecting ''/home/u/Projects/app'' [''node_modules'', ''dist'']
        [(''node_modules'', Dir [(''left-pad'', Dir [])])]
       = ([], Inr [''/home/u/Projects/app/node_modules''])"
proof -
  have h1: "well_named scenario_tree"
    by (simp add: scenario_tree_def valid_name_def)
  have h2: "findExcludedDirs rejecting ''/home/u/Projects'' [''node_modules'', ''dist''] scenario_tree
       = ([], Inr [''/home/u/Projects/app/node_modules'', ''/home/u/Projects/app/dist''])"
    by code_simp
  have h3: "isDirectory (Dir [(''left-pad'', Dir [])])
      \<and> some_pattern rejecting ''node_modules'' [''node_modules'', ''dist''] = Inr True"
    by code_simp
  have path: "path_join ''/home/u/Projects/app'' ''node_modules'' = ''/home/u/Projects/app/node_modules''"
    by code_simp
  from scan_results_match_and_are_not_nested
    [OF h1 h2, of "Dir [(''left-pad'', Dir [])]" "''node_modules''" "''/home/u/Projects/app''" "[]"]
    h1 h2 h3 path
  show ?thesis by simp
qed






lemma emptied_Dir: "emptied (Dir entries) = Dir (emptied_entries entries)"
  by (simp add: emptied_entries_def id_def)

lemma isDirectory_emptied: "isDirectory (emptied node) = isDirectory node"
  by (cases node) simp_all

lemma scan_emptied:
  "(case snd (findExcludedDirs engine dir patterns node) of Inl e \<Rightarrow> [] | Inr found \<Rightarrow> found)
     = (case snd (findExcludedDirs engine dir patterns (emptied node)) of Inl e \<Rightarrow> [] | Inr found \<Rightarrow> found)
   \<and> (\<forall>entries. node = Dir entries \<longrightarrow>
         snd (findExcludedDirs engine dir patterns node)
           = snd (findExcludedDirs engine dir patterns (emptied node)))"
  and scan_entries_emptied:
  "snd (scan_entries engine dir patterns entries)
     = snd (scan_entries engine dir patterns (emptied_entries entries))"
proof (induction engine dir patterns node and engine dir patterns entries
    rule: findExcludedDirs_scan_entries.induct)
  case (1 engine dir patterns)
  show ?case by simp
next
  case (2 engine dir patterns m)
  show ?case by simp
next
  case (3 engine dir patterns entries)
  then show ?case by (simp add: emptied_Dir del: emptied.simps)
next
  case (4 engine dir patterns)
  show ?case by (simp add: emptied_entries_def)
next
  case (5 engine dir patterns name node rest)
  let ?rest = "scan_entries engine dir patterns rest"
  let ?rest' = "scan_entries engine dir patterns (emptied_entries rest)"
  let ?child = "findExcludedDirs engine (path_join dir name) patterns node"
  have list: "emptied_entries ((name, node) # rest) = (name, emptied node) # emptied_entries rest"
    by (simp add: emptied_entries_def)
  show ?case
  proof (cases "isDirectory node")
    case False
    then have False': "\<not> isDirectory (emptied node)" by (simp add: isDirectory_emptied)
    from "5.IH"(5) [OF refl False] show ?thesis
      unfolding list scan_entries_other [OF False] scan_entries_other [OF False'] .
  next
    case True
    then have True': "isDirectory (emptied node)" by (simp add: isDirectory_emptied)
    show ?thesis
    proof (cases engine name patterns rule: some_pattern_cases)
      case (rejected m)
      show ?thesis
        unfolding list scan_entries_rejected [OF True rejected] scan_entries_rejected [OF True' rejected]
        by simp
    next
      case match
      from "5.IH"(1) [OF refl True match refl] show ?thesis
        unfolding list scan_entries_match [OF True match] scan_entries_match [OF True' match]
        by (simp only: snd_conv)
    next
      case no_match
      obtain out1 r1 where c: "?child = (out1, r1)" by (cases ?child)
      have rest: "snd ?rest = snd ?rest'"
      proof (cases r1)
        case (Inl e)
        from "5.IH"(3) [OF refl True no_match refl c [symmetric] Inl] show ?thesis .
      next
        case (Inr f)
        from "5.IH"(4) [OF refl True no_match refl c [symmetric] Inr] show ?thesis .
      qed
      from "5.IH"(2) [OF refl True no_match refl] rest show ?thesis
        unfolding list scan_entries_descend [OF True no_match] scan_entries_descend [OF True' no_match]
        by (simp only: snd_conv)
    qed
  qed
qed



end
